theory Spec2Isabelle
  imports Main "HOL-Library.Word"
begin

unbundle bit_operations_syntax

section \<open>The ring buffer of include/bring/ring\_buffer.hpp\<close>

text \<open>
  \<^verbatim>\<open>RingBuffer<T, Capacity>\<close> is a single-producer/single-consumer queue over a
  heap array of \<^verbatim>\<open>Capacity\<close> raw slots and two cursors of type \<^verbatim>\<open>size_t\<close>.
  The development below is about the sequential behaviour of the class: every member
  function is a function from the state before the call to the result and the state
  after it. The atomics are plain fields here (memory orders have no sequential
  content), \<^verbatim>\<open>size_t\<close> is a 64-bit word, and the template parameter
  \<^verbatim>\<open>Capacity\<close> is the first argument of every operation.
\<close>

subsection \<open>Data\<close>

type_synonym size_t = "64 word"

text \<open>
  A slot is raw, suitably aligned storage for one \<^verbatim>\<open>T\<close>. It either holds no
  object (\<open>None\<close>: never constructed, or already destroyed) or a live one.
\<close>

type_synonym 'a Slot = "'a option"

text \<open>
  \<^verbatim>\<open>_storage\<close> is a \<^verbatim>\<open>std::unique_ptr<Slot[]>\<close>: \<open>None\<close> is the null pointer a
  moved-from buffer is left with.
\<close>

record 'a RingBuffer =
  head :: size_t
  tail :: size_t
  storage :: "'a Slot list option"

text \<open>
  C++ gives no meaning to a dereference of the null storage pointer, to an index past
  the array, or to reading a slot that holds no object. The model makes each of them a
  value, so that a theorem saying that an operation returns \<open>Inr\<close> says that none
  of them happens.
\<close>

datatype fault = NullStorage | OutOfBounds | DeadSlot

text \<open>The two \<^verbatim>\<open>static_assert\<close>s of the class template.\<close>

definition static_asserts :: "size_t \<Rightarrow> bool" where
  "static_asserts Capacity \<longleftrightarrow> (Capacity AND (Capacity - 1)) = 0 \<and> Capacity > 1"

text \<open>\<^verbatim>\<open>RingBuffer()\<close>: both cursors 0, a fresh array of \<^verbatim>\<open>Capacity\<close> raw slots.\<close>

definition RingBuffer_new :: "size_t \<Rightarrow> 'a RingBuffer" where
  "RingBuffer_new Capacity =
     \<lparr>head = 0, tail = 0, storage = Some (replicate (unat Capacity) None)\<rparr>"

subsection \<open>Slot access\<close>

text \<open>
  \<^verbatim>\<open>get_ptr(idx)\<close> is \<^verbatim>\<open>&_storage[idx]._data\<close> cast to \<^verbatim>\<open>T *\<close>. The pointer is
  the position of the slot in the array.
\<close>

definition get_ptr :: "'a RingBuffer \<Rightarrow> size_t \<Rightarrow> fault + nat" where
  "get_ptr b idx =
     (case storage b of
        None \<Rightarrow> Inl NullStorage
      | Some slots \<Rightarrow> if unat idx < length slots then Inr (unat idx) else Inl OutOfBounds)"

text \<open>\<^verbatim>\<open>new (p) T(v)\<close>: an object begins to live in the slot.\<close>

definition construct_at :: "nat \<Rightarrow> 'a \<Rightarrow> 'a RingBuffer \<Rightarrow> 'a RingBuffer" where
  "construct_at p v b = b\<lparr>storage := map_option (\<lambda>slots. slots[p := Some v]) (storage b)\<rparr>"

text \<open>\<^verbatim>\<open>std::move(*p)\<close>: the value of the object that lives in the slot.\<close>

definition move_from :: "'a RingBuffer \<Rightarrow> nat \<Rightarrow> fault + 'a" where
  "move_from b p =
     (case storage b of
        None \<Rightarrow> Inl NullStorage
      | Some slots \<Rightarrow> (case slots ! p of None \<Rightarrow> Inl DeadSlot | Some v \<Rightarrow> Inr v))"

text \<open>\<^verbatim>\<open>p->~T()\<close>: the object in the slot stops living.\<close>

definition destroy_at :: "nat \<Rightarrow> 'a RingBuffer \<Rightarrow> 'a RingBuffer" where
  "destroy_at p b = b\<lparr>storage := map_option (\<lambda>slots. slots[p := None]) (storage b)\<rparr>"

subsection \<open>Queries\<close>

definition is_full :: "size_t \<Rightarrow> 'a RingBuffer \<Rightarrow> bool" where
  "is_full Capacity b =
     (let current_head = head b;
          next_head = (current_head + 1) AND (Capacity - 1)
      in next_head = tail b)"

definition is_empty :: "'a RingBuffer \<Rightarrow> bool" where
  "is_empty b = (let current_tail = tail b in current_tail = head b)"

subsection \<open>Producer side\<close>

definition try_push :: "size_t \<Rightarrow> 'a \<Rightarrow> 'a RingBuffer \<Rightarrow> fault + (bool \<times> 'a RingBuffer)" where
  "try_push Capacity item b =
     (let current_head = head b;
          next_head = (current_head + 1) AND (Capacity - 1)
      in if next_head = tail b then Inr (False, b)
         else (case get_ptr b current_head of
                 Inl e \<Rightarrow> Inl e
               | Inr p \<Rightarrow> Inr (True, (construct_at p item b)\<lparr>head := next_head\<rparr>)))"

text \<open>
  \<^verbatim>\<open>emplace(args...)\<close> differs from \<^verbatim>\<open>try_push\<close> in the constructor call only:
  \<open>T\<close> stands for the constructor of the element type selected by the arguments.
\<close>

definition emplace ::
  "size_t \<Rightarrow> ('args \<Rightarrow> 'a) \<Rightarrow> 'args \<Rightarrow> 'a RingBuffer \<Rightarrow> fault + (bool \<times> 'a RingBuffer)" where
  "emplace Capacity T args b =
     (let current_head = head b;
          next_head = (current_head + 1) AND (Capacity - 1)
      in if next_head = tail b then Inr (False, b)
         else (case get_ptr b current_head of
                 Inl e \<Rightarrow> Inl e
               | Inr p \<Rightarrow> Inr (True, (construct_at p (T args) b)\<lparr>head := next_head\<rparr>)))"

subsection \<open>Consumer side\<close>

text \<open>
  \<^verbatim>\<open>try_pop_ip(out)\<close>: the second component of the result is the caller's variable
  after the call.
\<close>

definition try_pop_ip ::
  "size_t \<Rightarrow> 'a \<Rightarrow> 'a RingBuffer \<Rightarrow> fault + (bool \<times> 'a \<times> 'a RingBuffer)" where
  "try_pop_ip Capacity out b =
     (let current_tail = tail b
      in if current_tail = head b then Inr (False, out, b)
         else (case get_ptr b current_tail of
                 Inl e \<Rightarrow> Inl e
               | Inr element_ptr \<Rightarrow>
                   (case move_from b element_ptr of
                      Inl e \<Rightarrow> Inl e
                    | Inr v \<Rightarrow>
                        Inr (True, v,
                             (destroy_at element_ptr b)
                               \<lparr>tail := (current_tail + 1) AND (Capacity - 1)\<rparr>))))"

definition try_pop :: "size_t \<Rightarrow> 'a RingBuffer \<Rightarrow> fault + ('a option \<times> 'a RingBuffer)" where
  "try_pop Capacity b =
     (let current_tail = tail b
      in if current_tail = head b then Inr (None, b)
         else (case get_ptr b current_tail of
                 Inl e \<Rightarrow> Inl e
               | Inr element_ptr \<Rightarrow>
                   (case move_from b element_ptr of
                      Inl e \<Rightarrow> Inl e
                    | Inr v \<Rightarrow>
                        Inr (Some v,
                             (destroy_at element_ptr b)
                               \<lparr>tail := (current_tail + 1) AND (Capacity - 1)\<rparr>))))"

text \<open>
  \<^verbatim>\<open>try_consume(processor)\<close>: the callback acts on whatever the caller lets it
  capture, a state of type \<open>'s\<close>; it does not call back into the buffer.
\<close>

definition try_consume ::
  "size_t \<Rightarrow> ('a \<Rightarrow> 's \<Rightarrow> 's) \<Rightarrow> 's \<Rightarrow> 'a RingBuffer \<Rightarrow> fault + (bool \<times> 's \<times> 'a RingBuffer)" where
  "try_consume Capacity processor s b =
     (let current_tail = tail b
      in if current_tail = head b then Inr (False, s, b)
         else (case get_ptr b current_tail of
                 Inl e \<Rightarrow> Inl e
               | Inr element_ptr \<Rightarrow>
                   (case move_from b element_ptr of
                      Inl e \<Rightarrow> Inl e
                    | Inr v \<Rightarrow>
                        Inr (True, processor v s,
                             (destroy_at element_ptr b)
                               \<lparr>tail := (current_tail + 1) AND (Capacity - 1)\<rparr>))))"

subsection \<open>Destruction and moves\<close>

text \<open>The number of slots that hold a live object; it decreases with every successful read.\<close>

definition live_slots :: "'a RingBuffer \<Rightarrow> nat" where
  "live_slots b =
     (case storage b of
        None \<Rightarrow> 0
      | Some slots \<Rightarrow> length (filter (\<lambda>s. s \<noteq> None) slots))"

text \<open>
  \<^verbatim>\<open>~RingBuffer()\<close> is the loop \<^verbatim>\<open>while (try_consume(discard)) {}\<close>. Each round in
  which \<^verbatim>\<open>try_consume\<close> returns \<^verbatim>\<open>true\<close> runs \<^verbatim>\<open>element_ptr->~T()\<close> once, and
  no other code of the destructor destroys an element: the first component of the result is
  the number of such rounds, the second the buffer just before its storage is released.
\<close>

function RingBuffer_dtor :: "size_t \<Rightarrow> 'a RingBuffer \<Rightarrow> fault + (nat \<times> 'a RingBuffer)" where
  "RingBuffer_dtor Capacity b =
     (case try_consume Capacity (\<lambda>_ s. s) () b of
        Inl e \<Rightarrow> Inl e
      | Inr (consumed, _, b') \<Rightarrow>
          if consumed
          then (case RingBuffer_dtor Capacity b' of
                  Inl e \<Rightarrow> Inl e
                | Inr (n, b'') \<Rightarrow> Inr (Suc n, b''))
          else Inr (0, b'))"
  by pat_completeness auto
termination
proof (relation "measure (\<lambda>(Capacity, b). live_slots b)")
  show "wf (measure (\<lambda>(Capacity, b). live_slots b))" by simp
next
  fix Capacity :: size_t and b :: "'a RingBuffer" and x x1 and u :: unit and b' :: "'a RingBuffer" and z
  assume a: "try_consume Capacity (\<lambda>_ s. s) () b = Inr x" "(x1, z) = x" "(u, b') = z" "x1"
  then have tc: "try_consume Capacity (\<lambda>_ s. s) () b = Inr (True, u, b')" by auto
  then obtain slots p v where s: "storage b = Some slots" "p < length slots" "slots ! p = Some v"
      "storage b' = Some (slots[p := None])"
    by (auto simp: try_consume_def get_ptr_def move_from_def destroy_at_def Let_def
        split: if_splits option.splits sum.splits)
  have dec: "p < length xs \<Longrightarrow> xs ! p \<noteq> None \<Longrightarrow>
      length (filter (\<lambda>s. s \<noteq> None) (xs[p := None])) < length (filter (\<lambda>s. s \<noteq> None) xs)"
    for xs :: "'a option list" and p
  proof (induction xs arbitrary: p)
    case Nil
    then show ?case by simp
  next
    case (Cons x xs)
    then show ?case by (cases p) auto
  qed
  from dec [of p slots] s
  have "live_slots b' < live_slots b" using s by (simp add: live_slots_def)
  then show "((Capacity, b'), (Capacity, b)) \<in> measure (\<lambda>(Capacity, b). live_slots b)" by simp
qed

text \<open>
  The loop \<^verbatim>\<open>while (try_pop()) {}\<close> at the start of the move assignment: the
  \<^verbatim>\<open>std::optional\<close> converts to \<^verbatim>\<open>true\<close> when it holds a value.
\<close>

function pop_all :: "size_t \<Rightarrow> 'a RingBuffer \<Rightarrow> fault + 'a RingBuffer" where
  "pop_all Capacity b =
     (case try_pop Capacity b of
        Inl e \<Rightarrow> Inl e
      | Inr (result, b') \<Rightarrow>
          (case result of
             Some _ \<Rightarrow> pop_all Capacity b'
           | None \<Rightarrow> Inr b'))"
  by pat_completeness auto
termination
proof (relation "measure (\<lambda>(Capacity, b). live_slots b)")
  show "wf (measure (\<lambda>(Capacity, b). live_slots b))" by simp
next
  fix Capacity :: size_t and b :: "'a RingBuffer" and x r and b' :: "'a RingBuffer" and v
  assume a: "try_pop Capacity b = Inr x" "(r, b') = x" "r = Some v"
  then have tc: "try_pop Capacity b = Inr (Some v, b')" by auto
  then obtain slots p w where s: "storage b = Some slots" "p < length slots" "slots ! p = Some w"
      "storage b' = Some (slots[p := None])"
    by (auto simp: try_pop_def get_ptr_def move_from_def destroy_at_def Let_def
        split: if_splits option.splits sum.splits)
  have dec: "p < length xs \<Longrightarrow> xs ! p \<noteq> None \<Longrightarrow>
      length (filter (\<lambda>s. s \<noteq> None) (xs[p := None])) < length (filter (\<lambda>s. s \<noteq> None) xs)"
    for xs :: "'a option list" and p
  proof (induction xs arbitrary: p)
    case Nil
    then show ?case by simp
  next
    case (Cons x xs)
    then show ?case by (cases p) auto
  qed
  from dec [of p slots] s
  have "live_slots b' < live_slots b" using s by (simp add: live_slots_def)
  then show "((Capacity, b'), (Capacity, b)) \<in> measure (\<lambda>(Capacity, b). live_slots b)" by simp
qed

text \<open>
  The move constructor: the result is the new buffer and what is left of \<^verbatim>\<open>other\<close>.
  Moving the \<^verbatim>\<open>unique_ptr\<close> leaves the null pointer behind.
\<close>

definition RingBuffer_move :: "'a RingBuffer \<Rightarrow> 'a RingBuffer \<times> 'a RingBuffer" where
  "RingBuffer_move other =
     (\<lparr>head = head other, tail = tail other, storage = storage other\<rparr>,
      other\<lparr>storage := None, head := 0, tail := 0\<rparr>)"

text \<open>
  The move assignment between two distinct objects (for \<^verbatim>\<open>this == &other\<close> the
  operator does nothing): the result is \<^verbatim>\<open>*this\<close> and \<^verbatim>\<open>other\<close> after the call.
\<close>

definition move_assign ::
  "size_t \<Rightarrow> 'a RingBuffer \<Rightarrow> 'a RingBuffer \<Rightarrow> fault + ('a RingBuffer \<times> 'a RingBuffer)" where
  "move_assign Capacity this other =
     (case pop_all Capacity this of
        Inl e \<Rightarrow> Inl e
      | Inr this' \<Rightarrow>
          Inr (this'\<lparr>head := head other, tail := tail other, storage := storage other\<rparr>,
               other\<lparr>storage := None, head := 0, tail := 0\<rparr>))"

text \<open>The equations of the two loops are unfolded by hand, one round at a time.\<close>

declare RingBuffer_dtor.simps [simp del] pop_all.simps [simp del]

subsection \<open>Sequences of calls\<close>

text \<open>
  A client program, as far as the buffer can tell, is a list of calls. \<open>TryPopIp out\<close>
  carries the value the caller's variable holds before the call; the callback given to
  \<^verbatim>\<open>try_consume\<close> stores the element it receives. Each call leaves an event: the value
  offered and the flag returned, the value delivered, if any, or the answer of a query.
\<close>

datatype 'a call = TryPush 'a | Emplace 'a | TryPopIp 'a | TryPop | TryConsume | IsFull | IsEmpty

datatype 'a event = Pushed 'a bool | Popped "'a option" | Reported bool

fun perform :: "size_t \<Rightarrow> 'a call \<Rightarrow> 'a RingBuffer \<Rightarrow> fault + ('a event \<times> 'a RingBuffer)" where
  "perform Capacity (TryPush v) b =
     (case try_push Capacity v b of
        Inl e \<Rightarrow> Inl e
      | Inr (ok, b') \<Rightarrow> Inr (Pushed v ok, b'))"
| "perform Capacity (Emplace v) b =
     (case emplace Capacity (\<lambda>x. x) v b of
        Inl e \<Rightarrow> Inl e
      | Inr (ok, b') \<Rightarrow> Inr (Pushed v ok, b'))"
| "perform Capacity (TryPopIp out) b =
     (case try_pop_ip Capacity out b of
        Inl e \<Rightarrow> Inl e
      | Inr (ok, out', b') \<Rightarrow> Inr (Popped (if ok then Some out' else None), b'))"
| "perform Capacity TryPop b =
     (case try_pop Capacity b of
        Inl e \<Rightarrow> Inl e
      | Inr (result, b') \<Rightarrow> Inr (Popped result, b'))"
| "perform Capacity TryConsume b =
     (case try_consume Capacity (\<lambda>v _. Some v) None b of
        Inl e \<Rightarrow> Inl e
      | Inr (ok, seen, b') \<Rightarrow> Inr (Popped (if ok then seen else None), b'))"
| "perform Capacity IsFull b = Inr (Reported (is_full Capacity b), b)"
| "perform Capacity IsEmpty b = Inr (Reported (is_empty b), b)"

fun run :: "size_t \<Rightarrow> 'a call list \<Rightarrow> 'a RingBuffer \<Rightarrow> fault + ('a event list \<times> 'a RingBuffer)" where
  "run Capacity [] b = Inr ([], b)"
| "run Capacity (c # cs) b =
     (case perform Capacity c b of
        Inl e \<Rightarrow> Inl e
      | Inr (ev, b') \<Rightarrow>
          (case run Capacity cs b' of
             Inl e \<Rightarrow> Inl e
           | Inr (evs, b'') \<Rightarrow> Inr (ev # evs, b'')))"

text \<open>The values of the successful pushes, and of the successful pops, in call order.\<close>

fun pushed :: "'a event list \<Rightarrow> 'a list" where
  "pushed [] = []"
| "pushed (Pushed v ok # evs) = (if ok then v # pushed evs else pushed evs)"
| "pushed (Popped _ # evs) = pushed evs"
| "pushed (Reported _ # evs) = pushed evs"

fun popped :: "'a event list \<Rightarrow> 'a list" where
  "popped [] = []"
| "popped (Popped (Some v) # evs) = v # popped evs"
| "popped (_ # evs) = popped evs"

subsection \<open>The class invariant\<close>

text \<open>
  The number of elements between the cursors, the distance of a slot from \<^verbatim>\<open>tail\<close>
  going round the array, the slot at a given distance, and the queue a buffer stands for:
  the live objects from \<^verbatim>\<open>tail\<close> up to \<^verbatim>\<open>head\<close>.
\<close>

definition occupancy :: "size_t \<Rightarrow> 'a RingBuffer \<Rightarrow> nat" where
  "occupancy Capacity b =
     (unat (head b) + unat Capacity - unat (tail b)) mod unat Capacity"

definition offset :: "size_t \<Rightarrow> 'a RingBuffer \<Rightarrow> nat \<Rightarrow> nat" where
  "offset Capacity b i = (i + unat Capacity - unat (tail b)) mod unat Capacity"

definition slot_index :: "size_t \<Rightarrow> 'a RingBuffer \<Rightarrow> nat \<Rightarrow> nat" where
  "slot_index Capacity b k = (unat (tail b) + k) mod unat Capacity"

definition slots_of :: "'a RingBuffer \<Rightarrow> 'a Slot list" where
  "slots_of b = (case storage b of None \<Rightarrow> [] | Some slots \<Rightarrow> slots)"

definition contents :: "size_t \<Rightarrow> 'a RingBuffer \<Rightarrow> 'a list" where
  "contents Capacity b =
     map (\<lambda>k. the (slots_of b ! slot_index Capacity b k)) [0..<occupancy Capacity b]"

text \<open>
  A buffer that owns its array: \<^verbatim>\<open>Capacity\<close> slots, both cursors inside the array, and
  live objects in exactly the slots of the circular range from \<^verbatim>\<open>tail\<close> to \<^verbatim>\<open>head\<close>.
\<close>

definition invariant :: "size_t \<Rightarrow> 'a RingBuffer \<Rightarrow> bool" where
  "invariant Capacity b \<longleftrightarrow>
     storage b \<noteq> None \<and> length (slots_of b) = unat Capacity \<and>
     head b < Capacity \<and> tail b < Capacity \<and>
     (\<forall>i<unat Capacity.
        (slots_of b ! i \<noteq> None) = (offset Capacity b i < occupancy Capacity b))"

section \<open>Properties\<close>

subsection \<open>Arithmetic round the array\<close>

lemma mod_if2: "a < 2 * N \<Longrightarrow> a mod N = (if a < N then a else a - (N::nat))"
  by (simp add: le_mod_geq)

lemma occ_push:
  "H < N \<Longrightarrow> T < N \<Longrightarrow> (H + 1) mod N \<noteq> T \<Longrightarrow>
   ((H + 1) mod N + N - T) mod N = (H + N - T) mod N + (1::nat)"
  by (auto simp: mod_if2 split: if_splits)

lemma occ_pop:
  "H < N \<Longrightarrow> T < N \<Longrightarrow> T \<noteq> H \<Longrightarrow>
   (H + N - (T + 1) mod N) mod N + 1 = (H + N - T) mod (N::nat)"
  by (auto simp: mod_if2 split: if_splits)

lemma off_inj:
  "i < N \<Longrightarrow> j < N \<Longrightarrow> T < N \<Longrightarrow> (i + N - T) mod N = (j + N - T) mod N \<Longrightarrow> i = (j::nat)"
  by (auto simp: mod_if2 split: if_splits)

lemma off_pop:
  "i < N \<Longrightarrow> T < N \<Longrightarrow> i \<noteq> T \<Longrightarrow>
   (i + N - (T + 1) mod N) mod N + 1 = (i + N - T) mod (N::nat)"
  by (auto simp: mod_if2 split: if_splits)

lemma idx_off:
  "k < N \<Longrightarrow> T < N \<Longrightarrow> ((T + k) mod N + N - T) mod N = (k::nat)"
  by (auto simp: mod_if2 split: if_splits)

lemma off_idx:
  "i < N \<Longrightarrow> T < N \<Longrightarrow> (T + (i + N - T) mod N) mod N = (i::nat)"
  by (auto simp: mod_if2 split: if_splits)

lemma full_iff:
  "H < N \<Longrightarrow> T < N \<Longrightarrow> 2 \<le> N \<Longrightarrow> ((H + 1) mod N = T) = ((H + N - T) mod N = N - (1::nat))"
  by (auto simp: mod_if2 split: if_splits)

lemma empty_iff:
  "H < N \<Longrightarrow> T < N \<Longrightarrow> (T = H) = ((H + N - T) mod N = (0::nat))"
  by (auto simp: mod_if2 split: if_splits)


subsection \<open>Capacities\<close>

lemma nat_and_pred_zero:
  "0 < (x::nat) \<Longrightarrow> x AND (x - 1) = 0 \<Longrightarrow> \<exists>n. x = 2 ^ n"
proof (induction x rule: less_induct)
  case (less x)
  have unf: "x AND (x - 1) = of_bool (odd x \<and> odd (x - 1)) + 2 * ((x div 2) AND ((x - 1) div 2))"
    by (rule and_nat_rec)
  show ?case
  proof (cases "even x")
    case True
    then obtain k where k: "x = 2 * k" by (auto elim: evenE)
    with less.prems have k0: "0 < k" by simp
    have "(x - 1) div 2 = k - 1" using k k0 by (cases k) simp_all
    moreover have "x div 2 = k" using k by simp
    ultimately have "x AND (x - 1) = 2 * (k AND (k - 1))"
      using unf True by simp
    with less.prems have "k AND (k - 1) = 0" by simp
    moreover have "k < x" using k k0 by simp
    ultimately obtain n where "k = 2 ^ n" using less.IH k0 by blast
    then have "x = 2 ^ Suc n" using k by simp
    then show ?thesis by blast
  next
    case False
    then obtain k where k: "x = 2 * k + 1" by (auto elim: oddE)
    then have "x div 2 = k" "(x - 1) div 2 = k" by simp_all
    then have "x AND (x - 1) = 2 * k"
      using unf k by simp
    with less.prems have "k = 0" by simp
    then have "x = 2 ^ 0" using k by simp
    then show ?thesis by blast
  qed
qed

lemma static_asserts_pow2:
  assumes "static_asserts C"
  shows "\<exists>n. 1 \<le> n \<and> n < 64 \<and> C = 2 ^ n \<and> unat C = 2 ^ n"
proof -
  from assms have a: "C AND (C - 1) = 0" and b: "1 < C"
    by (simp_all add: static_asserts_def)
  from b have c0: "C \<noteq> 0" by auto
  have "unat (C AND (C - 1)) = unat C AND (unat C - 1)"
    using c0 by (simp add: unsigned_and_eq unat_minus_one)
  with a have "unat C AND (unat C - 1) = 0" by simp
  moreover have "0 < unat C" using c0 by (simp add: unat_gt_0)
  ultimately obtain n where n: "unat C = 2 ^ n" using nat_and_pred_zero by blast
  have n64: "n < 64"
  proof (rule ccontr)
    assume "\<not> n < 64"
    then have "(2::nat) ^ 64 \<le> 2 ^ n" by (intro power_increasing) simp_all
    moreover have "unat C < 2 ^ 64" using unsigned_less [of C] by simp
    ultimately show False using n by simp
  qed
  have c: "C = 2 ^ n"
  proof -
    have "C = of_nat (unat C)" by simp
    also have "\<dots> = 2 ^ n" by (simp only: n of_nat_power of_nat_numeral)
    finally show ?thesis .
  qed
  have "1 \<le> n"
  proof (rule ccontr)
    assume "\<not> 1 \<le> n"
    then have "n = 0" by simp
    with c b show False by simp
  qed
  with c n64 n show ?thesis by blast
qed

lemma static_asserts_ge2: "static_asserts C \<Longrightarrow> 2 \<le> unat C"
proof -
  assume "static_asserts C"
  then obtain n where n: "1 \<le> n" "unat C = 2 ^ n"
    using static_asserts_pow2 by blast
  have "(2::nat) ^ 1 \<le> 2 ^ n" using n(1) by (intro power_increasing) simp_all
  with n show ?thesis by simp
qed

lemma unat_next:
  assumes "static_asserts C"
  shows "unat ((i + 1) AND (C - 1)) = (unat i + 1) mod unat C"
proof -
  from static_asserts_pow2 [OF assms]
  obtain n where n: "1 \<le> n" "n < 64" "C = 2 ^ n" and uc: "unat C = 2 ^ n" by blast
  have m: "C - 1 = mask n" using n by (simp add: mask_eq_exp_minus_1)
  have "unat ((i + 1) AND (C - 1)) = unat (take_bit n (i + 1))"
    by (simp add: m take_bit_eq_mask)
  also have "\<dots> = take_bit n (unat (i + 1))"
    by (simp only: unsigned_take_bit_eq)
  also have "\<dots> = unat (i + 1) mod 2 ^ n"
    by (simp only: take_bit_eq_mod)
  also have "\<dots> = ((unat i + 1) mod 2 ^ 64) mod 2 ^ n"
    by (simp add: unat_word_ariths)
  also have "\<dots> = (unat i + 1) mod 2 ^ n"
  proof -
    have "n \<le> 64" using n by simp
    then have "(2::nat) ^ n dvd 2 ^ 64" by (rule le_imp_power_dvd)
    then show ?thesis by (rule mod_mod_cancel)
  qed
  finally show ?thesis by (simp add: uc)
qed

lemma next_less: "static_asserts C \<Longrightarrow> (i + 1) AND (C - 1) < C"
  using static_asserts_ge2 [of C] by (simp add: word_less_nat_alt unat_next)

lemma next_neq: "static_asserts C \<Longrightarrow> (i + 1) AND (C - 1) \<noteq> i"
proof
  assume sa: "static_asserts C" and e: "(i + 1) AND (C - 1) = i"
  from e have "unat ((i + 1) AND (C - 1)) = unat i" by simp
  then have m: "(unat i + 1) mod unat C = unat i" by (simp add: unat_next [OF sa])
  have n2: "2 \<le> unat C" by (rule static_asserts_ge2 [OF sa])
  have "unat i < unat C" using m n2 by (metis mod_less_divisor less_le_trans zero_less_numeral)
  then show False using m n2 by (auto simp: mod_if2 split: if_splits)
qed

subsection \<open>What the invariant says\<close>

lemma invariantD:
  assumes "static_asserts C" and "invariant C b"
  shows "\<exists>slots. storage b = Some slots \<and> length slots = unat C \<and>
           unat (head b) < unat C \<and> unat (tail b) < unat C \<and> 2 \<le> unat C \<and>
           (\<forall>i<unat C. (slots ! i \<noteq> None) = (offset C b i < occupancy C b))"
proof -
  from assms(2) obtain slots where s: "storage b = Some slots"
    by (auto simp: invariant_def)
  then have so: "slots_of b = slots" by (simp add: slots_of_def)
  have "length slots = unat C" "unat (head b) < unat C" "unat (tail b) < unat C"
    "\<forall>i<unat C. (slots ! i \<noteq> None) = (offset C b i < occupancy C b)"
    using assms(2) so by (simp_all add: invariant_def word_less_nat_alt)
  with s static_asserts_ge2 [OF assms(1)] show ?thesis by blast
qed

lemma invariantI:
  assumes "storage b = Some slots" and "length slots = unat C"
    and "unat (head b) < unat C" and "unat (tail b) < unat C"
    and "\<And>i. i < unat C \<Longrightarrow> (slots ! i \<noteq> None) = (offset C b i < occupancy C b)"
  shows "invariant C b"
  using assms by (simp add: invariant_def slots_of_def word_less_nat_alt)

lemma invariant_new: "static_asserts C \<Longrightarrow> invariant C (RingBuffer_new C)"
  using static_asserts_ge2 [of C]
  by (simp add: invariant_def RingBuffer_new_def slots_of_def occupancy_def word_less_nat_alt)

lemma contents_new: "static_asserts C \<Longrightarrow> contents C (RingBuffer_new C) = []"
  by (simp add: contents_def RingBuffer_new_def occupancy_def)

lemma occupancy_less: "static_asserts C \<Longrightarrow> occupancy C b < unat C"
  using static_asserts_ge2 [of C] by (simp add: occupancy_def)

lemma length_contents: "length (contents C b) = occupancy C b"
  by (simp add: contents_def)

lemma is_empty_iff:
  assumes "static_asserts C" and "invariant C b"
  shows "is_empty b \<longleftrightarrow> occupancy C b = 0"
proof -
  from invariantD [OF assms] have h: "unat (head b) < unat C" "unat (tail b) < unat C"
    by blast+
  have "is_empty b \<longleftrightarrow> unat (tail b) = unat (head b)"
    by (simp add: is_empty_def word_unat_eq_iff)
  also have "\<dots> \<longleftrightarrow> occupancy C b = 0"
    using empty_iff [OF h] by (simp add: occupancy_def)
  finally show ?thesis .
qed

lemma is_full_iff:
  assumes "static_asserts C" and "invariant C b"
  shows "is_full C b \<longleftrightarrow> occupancy C b = unat C - 1"
proof -
  from invariantD [OF assms]
  have h: "unat (head b) < unat C" "unat (tail b) < unat C" "2 \<le> unat C"
    by blast+
  have "is_full C b \<longleftrightarrow> unat ((head b + 1) AND (C - 1)) = unat (tail b)"
    by (simp add: is_full_def word_unat_eq_iff)
  also have "\<dots> \<longleftrightarrow> (unat (head b) + 1) mod unat C = unat (tail b)"
    by (simp add: unat_next [OF assms(1)])
  also have "\<dots> \<longleftrightarrow> occupancy C b = unat C - 1"
    using full_iff [OF h] by (simp add: occupancy_def)
  finally show ?thesis .
qed

subsection \<open>A push that finds room\<close>

lemma try_push_room:
  assumes sa: "static_asserts C" and inv: "invariant C b" and room: "\<not> is_full C b"
  shows "\<exists>b'. try_push C v b = Inr (True, b') \<and> invariant C b' \<and>
           contents C b' = contents C b @ [v] \<and> tail b' = tail b \<and>
           storage b' = Some ((slots_of b)[unat (head b) := Some v])"
proof -
  from invariantD [OF sa inv]
  obtain slots where st: "storage b = Some slots" and len: "length slots = unat C"
    and h: "unat (head b) < unat C" and t: "unat (tail b) < unat C" and n2: "2 \<le> unat C"
    and live: "\<forall>i<unat C. (slots ! i \<noteq> None) = (offset C b i < occupancy C b)"
    by blast
  let ?H = "unat (head b)" and ?T = "unat (tail b)" and ?N = "unat C"
  let ?nh = "(head b + 1) AND (C - 1)"
  let ?slots' = "slots[?H := Some v]"
  let ?b' = "b\<lparr>storage := Some ?slots', head := ?nh\<rparr>"
  have nh: "unat ?nh = (?H + 1) mod ?N" by (rule unat_next [OF sa])
  from room have "unat ?nh \<noteq> ?T" by (simp add: is_full_def word_unat_eq_iff)
  then have ne: "(?H + 1) mod ?N \<noteq> ?T" by (simp add: nh)
  have res: "try_push C v b = Inr (True, ?b')"
    using room st len h by (simp add: try_push_def is_full_def get_ptr_def construct_at_def Let_def)
  have occ': "occupancy C ?b' = occupancy C b + 1"
    using occ_push [OF h t ne] by (simp add: occupancy_def nh)
  have off': "offset C ?b' i = offset C b i" for i by (simp add: offset_def)
  have offH: "offset C b ?H = occupancy C b" by (simp add: offset_def occupancy_def)
  have inj: "offset C b i \<noteq> occupancy C b" if "i < ?N" "i \<noteq> ?H" for i
    using off_inj [OF that(1) h t] that(2) offH by (auto simp: offset_def)
  have inv': "invariant C ?b'"
  proof (rule invariantI [where slots = ?slots'])
    show "storage ?b' = Some ?slots'" by simp
    show "length ?slots' = ?N" by (simp add: len)
    show "unat (head ?b') < ?N" using n2 by (simp add: nh)
    show "unat (tail ?b') < ?N" using t by simp
    show "(?slots' ! i \<noteq> None) = (offset C ?b' i < occupancy C ?b')" if "i < ?N" for i
    proof (cases "i = ?H")
      case True
      then show ?thesis using h len offH by (simp add: occ' off')
    next
      case False
      then have "?slots' ! i = slots ! i" by simp
      moreover have "(offset C b i < occupancy C b + 1) = (offset C b i < occupancy C b)"
        using inj [OF that False] by auto
      ultimately show ?thesis using live that by (simp add: occ' off')
    qed
  qed
  have idx: "slot_index C ?b' k = slot_index C b k" for k by (simp add: slot_index_def)
  have last: "slot_index C b (occupancy C b) = ?H"
    using off_idx [OF h t] by (simp add: slot_index_def occupancy_def)
  have other: "?H \<noteq> slot_index C b k" if "k < occupancy C b" for k
  proof
    assume e: "?H = slot_index C b k"
    have "k < ?N" using that occupancy_less [OF sa, of b] by simp
    then have "offset C b (slot_index C b k) = k"
      using idx_off [OF _ t, of k] by (simp add: offset_def slot_index_def)
    with e offH that show False by simp
  qed
  have "contents C ?b' =
          map (\<lambda>k. the (?slots' ! slot_index C b k)) [0..<occupancy C b] @
          [the (?slots' ! slot_index C b (occupancy C b))]"
    by (simp add: contents_def occ' idx slots_of_def)
  also have "map (\<lambda>k. the (?slots' ! slot_index C b k)) [0..<occupancy C b] = contents C b"
    by (simp add: contents_def slots_of_def st other)
  also have "the (?slots' ! slot_index C b (occupancy C b)) = v"
    using h len by (simp add: last)
  finally have "contents C ?b' = contents C b @ [v]" .
  with res inv' st show ?thesis by (simp add: slots_of_def)
qed

lemma try_push_full: "is_full C b \<Longrightarrow> try_push C v b = Inr (False, b)"
  by (simp add: try_push_def is_full_def Let_def)

lemma emplace_eq: "emplace C T args b = try_push C (T args) b"
  by (simp add: emplace_def try_push_def)

subsection \<open>A pop that finds an element\<close>

lemma off_wrap: "T < N \<Longrightarrow> (T + N - (T + 1) mod N) mod N = N - (1::nat)"
  by (auto simp: mod_if2 split: if_splits)

lemma try_pop_element:
  assumes sa: "static_asserts C" and inv: "invariant C b" and ne: "\<not> is_empty b"
  shows "\<exists>v b'. try_pop C b = Inr (Some v, b') \<and> invariant C b' \<and>
           contents C b = v # contents C b' \<and> head b' = head b \<and>
           storage b' = Some ((slots_of b)[unat (tail b) := None]) \<and>
           slots_of b ! unat (tail b) = Some v"
proof -
  from invariantD [OF sa inv]
  obtain slots where st: "storage b = Some slots" and len: "length slots = unat C"
    and h: "unat (head b) < unat C" and t: "unat (tail b) < unat C" and n2: "2 \<le> unat C"
    and live: "\<forall>i<unat C. (slots ! i \<noteq> None) = (offset C b i < occupancy C b)"
    by blast
  let ?H = "unat (head b)" and ?T = "unat (tail b)" and ?N = "unat C"
  let ?nt = "(tail b + 1) AND (C - 1)"
  let ?slots' = "slots[?T := None]"
  let ?b' = "b\<lparr>storage := Some ?slots', tail := ?nt\<rparr>"
  have nt: "unat ?nt = (?T + 1) mod ?N" by (rule unat_next [OF sa])
  from ne have th: "?T \<noteq> ?H" by (simp add: is_empty_def word_unat_eq_iff)
  have occ0: "0 < occupancy C b" using is_empty_iff [OF sa inv] ne by simp
  have offT: "offset C b ?T = 0" using n2 by (simp add: offset_def)
  have "slots ! ?T \<noteq> None" using live t offT occ0 by simp
  then obtain v where v: "slots ! ?T = Some v" by blast
  have res: "try_pop C b = Inr (Some v, ?b')"
    using ne st len t v
    by (simp add: try_pop_def is_empty_def get_ptr_def move_from_def destroy_at_def Let_def)
  have occ': "occupancy C ?b' + 1 = occupancy C b"
    using occ_pop [OF h t th] by (simp add: occupancy_def nt)
  have off': "offset C ?b' i + 1 = offset C b i" if "i < ?N" "i \<noteq> ?T" for i
    using off_pop [OF that(1) t that(2)] by (simp add: offset_def nt)
  have offT': "offset C ?b' ?T = ?N - 1"
    using off_wrap [OF t] by (simp add: offset_def nt)
  have occN: "occupancy C b < ?N" by (rule occupancy_less [OF sa])
  have inv': "invariant C ?b'"
  proof (rule invariantI [where slots = ?slots'])
    show "storage ?b' = Some ?slots'" by simp
    show "length ?slots' = ?N" by (simp add: len)
    show "unat (head ?b') < ?N" using h by simp
    show "unat (tail ?b') < ?N" using n2 by (simp add: nt)
    show "(?slots' ! i \<noteq> None) = (offset C ?b' i < occupancy C ?b')" if "i < ?N" for i
    proof (cases "i = ?T")
      case True
      have "\<not> ?N - 1 < occupancy C ?b'" using occ' occN by arith
      then show ?thesis using True t len offT' by simp
    next
      case False
      then have "?slots' ! i = slots ! i" by simp
      moreover have "(offset C ?b' i < occupancy C ?b') = (offset C b i < occupancy C b)"
        using off' [OF that False] occ' by arith
      ultimately show ?thesis using live that by simp
    qed
  qed
  have idx': "slot_index C ?b' k = slot_index C b (Suc k)" for k
    by (simp add: slot_index_def nt mod_add_left_eq)
  have other: "?T \<noteq> slot_index C b (Suc k)" if "k < occupancy C ?b'" for k
  proof
    assume e: "?T = slot_index C b (Suc k)"
    have "Suc k < ?N" using that occ' occN by arith
    then have "offset C b (slot_index C b (Suc k)) = Suc k"
      using idx_off [OF _ t, of "Suc k"] by (simp add: offset_def slot_index_def)
    with e offT show False by simp
  qed
  have first: "slot_index C b 0 = ?T" using t by (simp add: slot_index_def)
  have "occupancy C b = Suc (occupancy C ?b')" using occ' by simp
  then have "contents C b =
      the (slots ! slot_index C b 0) #
      map (\<lambda>k. the (slots ! slot_index C b (Suc k))) [0..<occupancy C ?b']"
    by (simp add: contents_def slots_of_def st upt_conv_Cons map_Suc_upt [symmetric] del: upt_Suc)
  also have "the (slots ! slot_index C b 0) = v" by (simp add: first v)
  also have "map (\<lambda>k. the (slots ! slot_index C b (Suc k))) [0..<occupancy C ?b'] =
      contents C ?b'"
    by (simp add: contents_def slots_of_def idx' other)
  finally have "contents C b = v # contents C ?b'" .
  with res inv' v st show ?thesis by (simp add: slots_of_def)
qed

lemma try_pop_empty: "is_empty b \<Longrightarrow> try_pop C b = Inr (None, b)"
  by (simp add: try_pop_def is_empty_def Let_def)

subsection \<open>The three shapes of a read\<close>

lemma try_pop_ip_eq:
  "try_pop_ip C out b =
     (case try_pop C b of
        Inl e \<Rightarrow> Inl e
      | Inr (None, b') \<Rightarrow> Inr (False, out, b')
      | Inr (Some v, b') \<Rightarrow> Inr (True, v, b'))"
  by (simp add: try_pop_ip_def try_pop_def Let_def split: sum.splits)

lemma try_consume_eq:
  "try_consume C f s b =
     (case try_pop C b of
        Inl e \<Rightarrow> Inl e
      | Inr (None, b') \<Rightarrow> Inr (False, s, b')
      | Inr (Some v, b') \<Rightarrow> Inr (True, f v s, b'))"
  by (simp add: try_consume_def try_pop_def Let_def split: sum.splits)

subsection \<open>Sequences of calls keep the invariant\<close>

lemma pushed_Cons: "pushed (ev # evs) = pushed [ev] @ pushed evs"
  by (cases ev) simp_all

lemma popped_Cons: "popped (ev # evs) = popped [ev] @ popped evs"
proof (cases ev)
  case (Pushed v ok)
  then show ?thesis by simp
next
  case (Popped r)
  then show ?thesis by (cases r) simp_all
next
  case (Reported q)
  then show ?thesis by simp
qed

lemma perform_invariant:
  assumes sa: "static_asserts C" and inv: "invariant C b"
  shows "\<exists>ev b'. perform C c b = Inr (ev, b') \<and> invariant C b' \<and>
           contents C b @ pushed [ev] = popped [ev] @ contents C b'"
proof -
  have push: "\<exists>ok b'. try_push C v b = Inr (ok, b') \<and> invariant C b' \<and>
      contents C b @ pushed [Pushed v ok] = contents C b'" for v
  proof (cases "is_full C b")
    case True
    then show ?thesis using inv by (auto simp: try_push_full)
  next
    case False
    from try_push_room [OF sa inv False, of v] show ?thesis by auto
  qed
  have pop: "\<exists>r b'. try_pop C b = Inr (r, b') \<and> invariant C b' \<and>
      contents C b = popped [Popped r] @ contents C b'"
  proof (cases "is_empty b")
    case True
    then show ?thesis using inv by (auto simp: try_pop_empty)
  next
    case False
    from try_pop_element [OF sa inv False] show ?thesis by auto
  qed
  show ?thesis
  proof (cases c)
    case (TryPush v)
    with push [of v] show ?thesis by auto
  next
    case (Emplace v)
    with push [of v] show ?thesis by (auto simp: emplace_eq)
  next
    case (TryPopIp out)
    from pop obtain r b' where "try_pop C b = Inr (r, b')" "invariant C b'"
      "contents C b = popped [Popped r] @ contents C b'" by blast
    with TryPopIp show ?thesis by (cases r) (simp_all add: try_pop_ip_eq)
  next
    case TryPop
    with pop show ?thesis by auto
  next
    case TryConsume
    from pop obtain r b' where "try_pop C b = Inr (r, b')" "invariant C b'"
      "contents C b = popped [Popped r] @ contents C b'" by blast
    with TryConsume show ?thesis by (cases r) (simp_all add: try_consume_eq)
  next
    case IsFull
    then show ?thesis using inv by simp
  next
    case IsEmpty
    then show ?thesis using inv by simp
  qed
qed

lemma run_invariant:
  assumes sa: "static_asserts C"
  shows "invariant C b \<Longrightarrow>
    \<exists>evs b'. run C cs b = Inr (evs, b') \<and> invariant C b' \<and>
      contents C b @ pushed evs = popped evs @ contents C b'"
proof (induction cs arbitrary: b)
  case Nil
  then show ?case by simp
next
  case (Cons c cs)
  from perform_invariant [OF sa Cons.prems, of c]
  obtain ev b1 where s1: "perform C c b = Inr (ev, b1)" "invariant C b1"
    "contents C b @ pushed [ev] = popped [ev] @ contents C b1" by blast
  from Cons.IH [OF s1(2)]
  obtain evs b2 where s2: "run C cs b1 = Inr (evs, b2)" "invariant C b2"
    "contents C b1 @ pushed evs = popped evs @ contents C b2" by blast
  have "contents C b @ pushed (ev # evs) = (contents C b @ pushed [ev]) @ pushed evs"
    by (simp add: pushed_Cons [of ev evs])
  also have "\<dots> = popped [ev] @ (contents C b1 @ pushed evs)" by (simp add: s1(3))
  also have "\<dots> = popped (ev # evs) @ contents C b2"
    by (simp add: s2(3) popped_Cons [of ev evs])
  finally show ?case using s1(1) s2(1,2) by simp
qed

lemma run_new:
  assumes sa: "static_asserts C"
  shows "\<exists>evs b'. run C cs (RingBuffer_new C) = Inr (evs, b') \<and> invariant C b' \<and>
      pushed evs = popped evs @ contents C b'"
  using run_invariant [OF sa invariant_new [OF sa], of cs] by (simp add: contents_new [OF sa])

text \<open>A bounded quantifier over slot positions, in a form that evaluates on a numeral.\<close>

lemma all_below_upt: "(\<forall>i<n. P i) = list_all P [0..<n]"
  by (auto simp: list_all_iff)

subsection \<open>Filling a buffer\<close>

lemma push_many:
  assumes sa: "static_asserts C"
  shows "invariant C b \<Longrightarrow> occupancy C b + length vs \<le> unat C - 1 \<Longrightarrow>
    \<exists>b'. run C (map TryPush vs) b = Inr (map (\<lambda>v. Pushed v True) vs, b') \<and>
      invariant C b' \<and> contents C b' = contents C b @ vs"
proof (induction vs arbitrary: b)
  case Nil
  then show ?case by simp
next
  case (Cons v vs)
  have "occupancy C b \<noteq> unat C - 1" using Cons.prems(2) by simp
  then have "\<not> is_full C b" by (simp add: is_full_iff [OF sa Cons.prems(1)])
  from try_push_room [OF sa Cons.prems(1) this, of v]
  obtain b1 where s1: "try_push C v b = Inr (True, b1)" "invariant C b1"
    "contents C b1 = contents C b @ [v]" by blast
  from s1(3) have "occupancy C b1 = occupancy C b + 1"
    by (metis length_contents length_append_singleton Suc_eq_plus1)
  with Cons.prems(2) have "occupancy C b1 + length vs \<le> unat C - 1" by simp
  from Cons.IH [OF s1(2) this]
  obtain b2 where s2: "run C (map TryPush vs) b1 = Inr (map (\<lambda>v. Pushed v True) vs, b2)"
    "invariant C b2" "contents C b2 = contents C b1 @ vs" by blast
  show ?case using s1 s2 by simp
qed

subsection \<open>Outcomes of single calls\<close>

lemma try_push_False_iff: "(try_push C v b = Inr (False, b')) = (is_full C b \<and> b' = b)"
  by (auto simp: try_push_def is_full_def Let_def split: if_splits sum.splits)

lemma try_pop_None_iff: "(try_pop C b = Inr (None, b')) = (is_empty b \<and> b' = b)"
  by (auto simp: try_pop_def is_empty_def Let_def split: if_splits sum.splits)

lemma try_pop_ip_False_iff:
  "(try_pop_ip C out b = Inr (False, out', b')) = (is_empty b \<and> b' = b \<and> out' = out)"
  by (auto simp: try_pop_ip_def is_empty_def Let_def split: if_splits sum.splits)

lemma try_consume_False_iff:
  "(try_consume C f s b = Inr (False, s', b')) = (is_empty b \<and> b' = b \<and> s' = s)"
  by (auto simp: try_consume_def is_empty_def Let_def split: if_splits sum.splits)

lemma try_push_returns:
  assumes "static_asserts C" and "invariant C b"
  shows "\<exists>ok b'. try_push C v b = Inr (ok, b')"
proof (cases "is_full C b")
  case True
  then show ?thesis by (auto simp: try_push_full)
next
  case False
  from try_push_room [OF assms False, of v] show ?thesis by blast
qed

lemma try_pop_returns:
  assumes "static_asserts C" and "invariant C b"
  shows "\<exists>r b'. try_pop C b = Inr (r, b')"
proof (cases "is_empty b")
  case True
  then show ?thesis by (auto simp: try_pop_empty)
next
  case False
  from try_pop_element [OF assms False] show ?thesis by blast
qed

lemma try_pop_ip_returns:
  assumes "static_asserts C" and "invariant C b"
  shows "\<exists>ok out' b'. try_pop_ip C out b = Inr (ok, out', b')"
proof -
  from try_pop_returns [OF assms] obtain r b' where "try_pop C b = Inr (r, b')" by blast
  then show ?thesis by (cases r) (auto simp: try_pop_ip_eq)
qed

lemma try_consume_returns:
  assumes "static_asserts C" and "invariant C b"
  shows "\<exists>ok s' b'. try_consume C f s b = Inr (ok, s', b')"
proof -
  from try_pop_returns [OF assms] obtain r b' where "try_pop C b = Inr (r, b')" by blast
  then show ?thesis by (cases r) (auto simp: try_consume_eq)
qed

subsection \<open>What a call may touch\<close>

lemma try_push_frame:
  "try_push C v b = Inr (ok, b') \<Longrightarrow>
     tail b' = tail b \<and> length (slots_of b') = length (slots_of b) \<and>
     (\<forall>i. i \<noteq> unat (head b) \<longrightarrow> slots_of b' ! i = slots_of b ! i)"
  by (auto simp: try_push_def get_ptr_def construct_at_def slots_of_def Let_def
      split: if_splits option.splits)

lemma try_pop_frame:
  "try_pop C b = Inr (r, b') \<Longrightarrow>
     head b' = head b \<and> length (slots_of b') = length (slots_of b) \<and>
     (\<forall>i. i \<noteq> unat (tail b) \<longrightarrow> slots_of b' ! i = slots_of b ! i)"
  by (auto simp: try_pop_def get_ptr_def move_from_def destroy_at_def slots_of_def Let_def
      split: if_splits option.splits)

lemma try_pop_ip_frame:
  "try_pop_ip C out b = Inr (ok, out', b') \<Longrightarrow>
     head b' = head b \<and> length (slots_of b') = length (slots_of b) \<and>
     (\<forall>i. i \<noteq> unat (tail b) \<longrightarrow> slots_of b' ! i = slots_of b ! i)"
  by (auto simp: try_pop_ip_def get_ptr_def move_from_def destroy_at_def slots_of_def Let_def
      split: if_splits option.splits)

lemma try_consume_frame:
  "try_consume C f s b = Inr (ok, s', b') \<Longrightarrow>
     head b' = head b \<and> length (slots_of b') = length (slots_of b) \<and>
     (\<forall>i. i \<noteq> unat (tail b) \<longrightarrow> slots_of b' ! i = slots_of b ! i)"
  by (auto simp: try_consume_def get_ptr_def move_from_def destroy_at_def slots_of_def Let_def
      split: if_splits option.splits)

lemma occupied_not_head:
  assumes sa: "static_asserts C" and inv: "invariant C b" and k: "k < occupancy C b"
  shows "slot_index C b k \<noteq> unat (head b)"
proof
  assume e: "slot_index C b k = unat (head b)"
  from invariantD [OF sa inv]
  have t: "unat (tail b) < unat C" by blast
  have "k < unat C" using k occupancy_less [OF sa, of b] by simp
  then have "offset C b (slot_index C b k) = k"
    using idx_off [OF _ t, of k] by (simp add: offset_def slot_index_def)
  moreover have "offset C b (unat (head b)) = occupancy C b"
    by (simp add: offset_def occupancy_def)
  ultimately show False using e k by simp
qed

subsection \<open>Draining a buffer\<close>

lemma live_after_destroy:
  "p < length xs \<Longrightarrow> xs ! p \<noteq> None \<Longrightarrow>
     Suc (length (filter (\<lambda>s. s \<noteq> None) (xs[p := None]))) = length (filter (\<lambda>s. s \<noteq> None) xs)"
proof (induction xs arbitrary: p)
  case Nil
  then show ?case by simp
next
  case (Cons x xs)
  then show ?case by (cases p) auto
qed

lemma drained_slots:
  assumes sa: "static_asserts C" and inv: "invariant C b" and e: "occupancy C b = 0"
  shows "storage b = Some (replicate (unat C) None)"
proof -
  from invariantD [OF sa inv]
  obtain slots where s: "storage b = Some slots" "length slots = unat C"
    "\<forall>i<unat C. (slots ! i \<noteq> None) = (offset C b i < occupancy C b)" by blast
  have "slots = replicate (unat C) None"
    using s e by (intro nth_equalityI) simp_all
  with s show ?thesis by simp
qed

lemma dtor_drains:
  assumes sa: "static_asserts C"
  shows "invariant C b \<Longrightarrow> occupancy C b = n \<Longrightarrow>
    \<exists>b'. RingBuffer_dtor C b = Inr (n, b') \<and> storage b' = Some (replicate (unat C) None) \<and>
      is_empty b' \<and> live_slots b = n"
proof (induction n arbitrary: b)
  case 0
  then have "is_empty b" by (simp add: is_empty_iff [OF sa])
  then have "try_consume C (\<lambda>_ s. s) () b = Inr (False, (), b)"
    by (simp add: try_consume_eq try_pop_empty)
  then have "RingBuffer_dtor C b = Inr (0, b)"
    by (subst RingBuffer_dtor.simps) simp
  moreover have st: "storage b = Some (replicate (unat C) None)"
    by (rule drained_slots [OF sa "0.prems"])
  moreover have "live_slots b = 0" by (simp add: live_slots_def st)
  ultimately show ?case using \<open>is_empty b\<close> by simp
next
  case (Suc n)
  then have ne: "\<not> is_empty b" by (simp add: is_empty_iff [OF sa])
  from try_pop_element [OF sa Suc.prems(1) ne]
  obtain v b1 where p: "try_pop C b = Inr (Some v, b1)" "invariant C b1"
    "contents C b = v # contents C b1"
    "storage b1 = Some ((slots_of b)[unat (tail b) := None])"
    "slots_of b ! unat (tail b) = Some v" by blast
  from p(3) have "length (contents C b) = Suc (length (contents C b1))" by simp
  with Suc.prems(2) have occ1: "occupancy C b1 = n" by (simp add: length_contents)
  from Suc.IH [OF p(2) occ1]
  obtain b' where d: "RingBuffer_dtor C b1 = Inr (n, b')"
    "storage b' = Some (replicate (unat C) None)" "is_empty b'" "live_slots b1 = n" by blast
  have "try_consume C (\<lambda>_ s. s) () b = Inr (True, (), b1)"
    by (simp add: try_consume_eq p(1))
  then have "RingBuffer_dtor C b = Inr (Suc n, b')"
    by (subst RingBuffer_dtor.simps) (simp add: d(1))
  moreover have "live_slots b = Suc n"
  proof -
    from invariantD [OF sa Suc.prems(1)]
    obtain slots where s: "storage b = Some slots" "length slots = unat C"
      "unat (tail b) < unat C" by blast
    then have so: "slots_of b = slots" by (simp add: slots_of_def)
    have "Suc (live_slots b1) = live_slots b"
      using live_after_destroy [of "unat (tail b)" slots] s p(4,5)
      by (simp add: live_slots_def so)
    with d(4) show ?thesis by simp
  qed
  ultimately show ?case using d by simp
qed

lemma pop_all_drains:
  assumes sa: "static_asserts C"
  shows "invariant C b \<Longrightarrow> occupancy C b = n \<Longrightarrow>
    \<exists>b'. pop_all C b = Inr b' \<and> storage b' = Some (replicate (unat C) None) \<and> is_empty b'"
proof (induction n arbitrary: b)
  case 0
  then have "is_empty b" by (simp add: is_empty_iff [OF sa])
  then have "pop_all C b = Inr b"
    by (subst pop_all.simps) (simp add: try_pop_empty)
  moreover have "storage b = Some (replicate (unat C) None)"
    by (rule drained_slots [OF sa "0.prems"])
  ultimately show ?case using \<open>is_empty b\<close> by simp
next
  case (Suc n)
  then have ne: "\<not> is_empty b" by (simp add: is_empty_iff [OF sa])
  from try_pop_element [OF sa Suc.prems(1) ne]
  obtain v b1 where p: "try_pop C b = Inr (Some v, b1)" "invariant C b1"
    "contents C b = v # contents C b1" by blast
  from p(3) have "length (contents C b) = Suc (length (contents C b1))" by simp
  with Suc.prems(2) have occ1: "occupancy C b1 = n" by (simp add: length_contents)
  from Suc.IH [OF p(2) occ1]
  obtain b' where d: "pop_all C b1 = Inr b'"
    "storage b' = Some (replicate (unat C) None)" "is_empty b'" by blast
  have "pop_all C b = Inr b'"
    by (subst pop_all.simps) (simp add: p(1) d(1))
  with d show ?case by simp
qed

subsection \<open>Moves\<close>

lemma moved_from_reads:
  "is_empty \<lparr>head = 0, tail = 0, storage = None\<rparr>"
  "try_pop C \<lparr>head = 0, tail = 0, storage = None\<rparr> =
     Inr (None, \<lparr>head = 0, tail = 0, storage = None\<rparr>)"
  "try_pop_ip C out \<lparr>head = 0, tail = 0, storage = None\<rparr> =
     Inr (False, out, \<lparr>head = 0, tail = 0, storage = None\<rparr>)"
  "try_consume C f s \<lparr>head = 0, tail = 0, storage = None\<rparr> =
     Inr (False, s, \<lparr>head = 0, tail = 0, storage = None\<rparr>)"
  "RingBuffer_dtor C \<lparr>head = 0, tail = 0, storage = None\<rparr> =
     Inr (0, \<lparr>head = 0, tail = 0, storage = None\<rparr>)"
  by (simp_all add: is_empty_def try_pop_def try_pop_ip_def try_consume_def
      RingBuffer_dtor.simps [of C "\<lparr>head = 0, tail = 0, storage = None\<rparr>"])

lemma fresh_reads:
  "is_empty (RingBuffer_new C)"
  "try_pop C (RingBuffer_new C) = Inr (None, RingBuffer_new C)"
  "try_pop_ip C out (RingBuffer_new C) = Inr (False, out, RingBuffer_new C)"
  "try_consume C f s (RingBuffer_new C) = Inr (False, s, RingBuffer_new C)"
  by (simp_all add: is_empty_def try_pop_def try_pop_ip_def try_consume_def RingBuffer_new_def)

lemma not_full_at_zero:
  assumes "static_asserts C"
  shows "\<not> is_full C \<lparr>head = 0, tail = 0, storage = st\<rparr>"
  using next_neq [OF assms, of 0] by (simp add: is_full_def)

section \<open>The claims\<close>

text \<open>
  C1. Run any list of calls (\<^verbatim>\<open>try_push\<close>, \<^verbatim>\<open>emplace\<close>, \<^verbatim>\<open>try_pop_ip\<close>,
  \<^verbatim>\<open>try_pop\<close>, \<^verbatim>\<open>try_consume\<close>, with queries in between) one after the other on a
  freshly constructed buffer. The run completes without a fault; the values handed out by the successful
  pops are, in order, the values of the first successful pushes (the k-th successful pop
  returns the value of the k-th successful push), and the values pushed and not yet
  popped are the contents of the buffer, in push order. A push that would exceed
  \<^verbatim>\<open>Capacity - 1\<close> outstanding elements is refused by the buffer itself, so no bound on
  the calls is assumed.
\<close>

theorem fifo_order:
  assumes "static_asserts C"
  shows "\<exists>evs b'. run C cs (RingBuffer_new C) = Inr (evs, b') \<and>
           pushed evs = popped evs @ contents C b' \<and>
           length (popped evs) \<le> length (pushed evs) \<and>
           (\<forall>k<length (popped evs). popped evs ! k = pushed evs ! k)"
proof -
  from run_new [OF assms, of cs]
  obtain evs b' where r: "run C cs (RingBuffer_new C) = Inr (evs, b')"
    and q: "pushed evs = popped evs @ contents C b'" by blast
  from q have "length (popped evs) \<le> length (pushed evs)" by simp
  moreover from q have "\<forall>k<length (popped evs). popped evs ! k = pushed evs ! k"
    by (simp add: nth_append)
  ultimately show ?thesis using r q by blast
qed

theorem fifo_order_witness:
  "static_asserts 4 \<and>
   run 4 [TryPush (1::nat), TryPush 2, TryPush 3, Emplace 4, TryPop, TryPush 4,
          TryPopIp 0, TryConsume, IsEmpty, TryPop, TryPop] (RingBuffer_new 4) =
     Inr ([Pushed 1 True, Pushed 2 True, Pushed 3 True, Pushed 4 False, Popped (Some 1),
           Pushed 4 True, Popped (Some 2), Popped (Some 3), Reported False, Popped (Some 4),
           Popped None],
          \<lparr>head = 0, tail = 0, storage = Some [None, None, None, None]\<rparr>) \<and>
   (\<exists>evs b'. run 4 [TryPush (1::nat), TryPush 2, TryPush 3, Emplace 4, TryPop, TryPush 4,
                     TryPopIp 0, TryConsume, IsEmpty, TryPop, TryPop] (RingBuffer_new 4) =
                Inr (evs, b') \<and>
      pushed evs = [1, 2, 3, 4] \<and> popped evs = [1, 2, 3, 4] \<and>
      pushed evs = popped evs @ contents 4 b' \<and>
      (\<forall>k<length (popped evs). popped evs ! k = pushed evs ! k))"
proof -
  let ?cs = "[TryPush (1::nat), TryPush 2, TryPush 3, Emplace 4, TryPop, TryPush 4,
              TryPopIp 0, TryConsume, IsEmpty, TryPop, TryPop]"
  have sa: "static_asserts 4" by (simp add: static_asserts_def)
  have r: "run 4 ?cs (RingBuffer_new 4) =
     Inr ([Pushed 1 True, Pushed 2 True, Pushed 3 True, Pushed 4 False, Popped (Some 1),
           Pushed 4 True, Popped (Some 2), Popped (Some 3), Reported False, Popped (Some 4),
           Popped None],
          \<lparr>head = 0, tail = 0, storage = Some [None, None, None, None]\<rparr>)"
    by code_simp
  from fifo_order [OF sa, of ?cs]
  obtain evs b' where e: "run 4 ?cs (RingBuffer_new 4) = Inr (evs, b')"
    "pushed evs = popped evs @ contents 4 b'"
    "\<forall>k<length (popped evs). popped evs ! k = pushed evs ! k" by blast
  from e(1) r have "pushed evs = [1, 2, 3, 4]" "popped evs = [1, 2, 3, 4]" by auto
  with sa r e show ?thesis by blast
qed

text \<open>
  C2. Let the capacity pass the class's static assertions (a power of two above 1). On a
  freshly constructed buffer the first \<^verbatim>\<open>Capacity - 1\<close> calls of \<^verbatim>\<open>try_push\<close> in a row
  all return \<^verbatim>\<open>true\<close>; the next call returns \<^verbatim>\<open>false\<close> and leaves the whole buffer
  (cursors and slots) as it was.
\<close>

theorem usable_capacity:
  assumes "static_asserts C" and "length vs = unat C - 1"
  shows "\<exists>b. run C (map TryPush vs) (RingBuffer_new C) =
               Inr (map (\<lambda>v. Pushed v True) vs, b) \<and>
             contents C b = vs \<and>
             try_push C v b = Inr (False, b)"
proof -
  have "occupancy C (RingBuffer_new C :: 'a RingBuffer) + length vs \<le> unat C - 1"
    using assms(2) length_contents [of C "RingBuffer_new C :: 'a RingBuffer"]
    by (simp add: contents_new [OF assms(1)])
  from push_many [OF assms(1) invariant_new [OF assms(1)] this]
  obtain b where b: "run C (map TryPush vs) (RingBuffer_new C) =
      Inr (map (\<lambda>v. Pushed v True) vs, b)" "invariant C b" "contents C b = vs"
    by (auto simp: contents_new [OF assms(1)])
  have "occupancy C b = unat C - 1"
    using b(3) assms(2) length_contents [of C b] by simp
  then have "is_full C b" by (simp add: is_full_iff [OF assms(1) b(2)])
  then have "try_push C v b = Inr (False, b)" by (rule try_push_full)
  with b show ?thesis by blast
qed

theorem usable_capacity_witness:
  "static_asserts 4 \<and> length [10, 20, 30 :: nat] = unat (4 :: size_t) - 1 \<and>
   run 4 (map TryPush [10, 20, 30 :: nat]) (RingBuffer_new 4) =
     Inr ([Pushed 10 True, Pushed 20 True, Pushed 30 True],
          \<lparr>head = 3, tail = 0, storage = Some [Some 10, Some 20, Some 30, None]\<rparr>) \<and>
   try_push 4 40 \<lparr>head = 3, tail = 0, storage = Some [Some (10::nat), Some 20, Some 30, None]\<rparr> =
     Inr (False, \<lparr>head = 3, tail = 0, storage = Some [Some 10, Some 20, Some 30, None]\<rparr>)"
proof -
  let ?b = "\<lparr>head = 3, tail = 0, storage = Some [Some (10::nat), Some 20, Some 30, None]\<rparr>"
  have sa: "static_asserts 4" by (simp add: static_asserts_def)
  have len: "length [10, 20, 30 :: nat] = unat (4 :: size_t) - 1" by simp
  have r: "run 4 (map TryPush [10, 20, 30 :: nat]) (RingBuffer_new 4) =
      Inr ([Pushed 10 True, Pushed 20 True, Pushed 30 True], ?b)"
    by code_simp
  from usable_capacity [OF sa len, of 40]
  obtain b where b: "run 4 (map TryPush [10, 20, 30 :: nat]) (RingBuffer_new 4) =
      Inr (map (\<lambda>v. Pushed v True) [10, 20, 30], b)" "try_push 4 40 b = Inr (False, b)"
    by blast
  from b(1) r have "b = ?b" by simp
  with b(2) sa len r show ?thesis by simp
qed

text \<open>
  C3, as the code has it. In every state \<^verbatim>\<open>try_push\<close> and \<^verbatim>\<open>emplace\<close> return
  \<^verbatim>\<open>false\<close> exactly when the buffer is full, and then leave it as it was;
  \<^verbatim>\<open>try_pop\<close>, \<^verbatim>\<open>try_pop_ip\<close> and \<^verbatim>\<open>try_consume\<close> report failure exactly when
  it is empty (\<^verbatim>\<open>tail = head\<close>), and then leave the buffer, the caller's variable and
  the callback's state as they were. On a buffer that owns its slot array and satisfies
  the class invariant, as every buffer does that a list of calls reaches from a freshly
  constructed one, full means \<^verbatim>\<open>(head + 1) mod Capacity = tail\<close> and each of the five
  calls returns a value: failure is reported through the return value and in no other
  way. Nothing is said here of a producer call on a buffer that has been moved from.
\<close>

theorem operations_total:
  "(try_push C v b = Inr (False, b')) = (is_full C b \<and> b' = b) \<and>
   (emplace C T args b = Inr (False, b')) = (is_full C b \<and> b' = b) \<and>
   (try_pop_ip C out b = Inr (False, out', b')) = (is_empty b \<and> b' = b \<and> out' = out) \<and>
   (try_pop C b = Inr (None, b')) = (is_empty b \<and> b' = b) \<and>
   (try_consume C f s b = Inr (False, s', b')) = (is_empty b \<and> b' = b \<and> s' = s) \<and>
   is_empty b = (tail b = head b) \<and>
   (static_asserts C \<and> invariant C b \<longrightarrow>
      is_full C b = ((unat (head b) + 1) mod unat C = unat (tail b)) \<and>
      (\<exists>ok b1. try_push C v b = Inr (ok, b1)) \<and>
      (\<exists>ok b1. emplace C T args b = Inr (ok, b1)) \<and>
      (\<exists>ok out1 b1. try_pop_ip C out b = Inr (ok, out1, b1)) \<and>
      (\<exists>r b1. try_pop C b = Inr (r, b1)) \<and>
      (\<exists>ok s1 b1. try_consume C f s b = Inr (ok, s1, b1)))"
proof -
  have "is_full C b = ((unat (head b) + 1) mod unat C = unat (tail b))" if "static_asserts C"
    by (simp add: is_full_def word_unat_eq_iff unat_next [OF that])
  moreover have "is_empty b = (tail b = head b)" by (simp add: is_empty_def)
  ultimately show ?thesis
    using try_push_returns [of C b v] try_push_returns [of C b "T args"]
      try_pop_ip_returns [of C b out] try_pop_returns [of C b] try_consume_returns [of C b f s]
    by (simp add: try_push_False_iff try_pop_None_iff try_pop_ip_False_iff
        try_consume_False_iff emplace_eq)
qed

theorem operations_total_witness:
  "static_asserts 4 \<and>
   invariant 4 \<lparr>head = 1, tail = 2, storage = Some [Some (40::nat), None, Some 20, Some 30]\<rparr> \<and>
   is_full 4 \<lparr>head = 1, tail = 2, storage = Some [Some (40::nat), None, Some 20, Some 30]\<rparr> \<and>
   try_push 4 50 \<lparr>head = 1, tail = 2, storage = Some [Some (40::nat), None, Some 20, Some 30]\<rparr> =
     Inr (False, \<lparr>head = 1, tail = 2, storage = Some [Some 40, None, Some 20, Some 30]\<rparr>) \<and>
   (\<exists>r b1. try_pop 4 \<lparr>head = 1, tail = 2, storage = Some [Some (40::nat), None, Some 20, Some 30]\<rparr> =
      Inr (r, b1))"
proof -
  let ?b = "\<lparr>head = 1, tail = 2, storage = Some [Some (40::nat), None, Some 20, Some 30]\<rparr>"
  have sa: "static_asserts 4" by (simp add: static_asserts_def)
  have inv: "invariant 4 ?b"
    by (simp add: invariant_def slots_of_def offset_def occupancy_def all_below_upt upt_rec)
  have full: "is_full 4 ?b" by (simp add: is_full_def)
  from operations_total [of 4 50 ?b ?b id 50 0 0 "\<lambda>v s. s" "()" "()"] sa inv full
  show ?thesis by blast
qed

text \<open>
  The calls are not total in every state a client can reach, as C3 has it in the
  specification: the source of a move is left empty and not full, with no slot array, and
  on it \<^verbatim>\<open>try_push\<close> and \<^verbatim>\<open>emplace\<close> pass the full test and construct through the
  null pointer instead of returning.
\<close>

theorem moved_from_not_total_counterexample:
  "is_empty (snd (RingBuffer_move (RingBuffer_new 4 :: nat RingBuffer))) \<and>
   \<not> is_full 4 (snd (RingBuffer_move (RingBuffer_new 4 :: nat RingBuffer))) \<and>
   try_push 4 (7::nat) (snd (RingBuffer_move (RingBuffer_new 4))) = Inl NullStorage \<and>
   emplace 4 Suc 6 (snd (RingBuffer_move (RingBuffer_new 4))) = Inl NullStorage"
  by code_simp

text \<open>
  C4. In no state that a list of calls reaches from a freshly constructed buffer do
  \<^verbatim>\<open>is_empty()\<close> and \<^verbatim>\<open>is_full()\<close> both return \<^verbatim>\<open>true\<close>.
\<close>

theorem empty_full_exclusive:
  assumes "static_asserts C"
  shows "\<exists>evs b'. run C cs (RingBuffer_new C) = Inr (evs, b') \<and>
           \<not> (is_empty b' \<and> is_full C b')"
proof -
  from run_new [OF assms, of cs]
  obtain evs b' where r: "run C cs (RingBuffer_new C) = Inr (evs, b')" by blast
  have "\<not> (is_empty b' \<and> is_full C b')"
    using next_neq [OF assms, of "head b'"] by (auto simp: is_empty_def is_full_def Let_def)
  with r show ?thesis by blast
qed

theorem empty_full_exclusive_witness:
  "static_asserts 4 \<and>
   run 4 [TryPush (1::nat), TryPush 2, TryPush 3, IsFull, IsEmpty] (RingBuffer_new 4) =
     Inr ([Pushed 1 True, Pushed 2 True, Pushed 3 True, Reported True, Reported False],
          \<lparr>head = 3, tail = 0, storage = Some [Some 1, Some 2, Some 3, None]\<rparr>) \<and>
   \<not> (is_empty \<lparr>head = 3, tail = 0, storage = Some [Some (1::nat), Some 2, Some 3, None]\<rparr> \<and>
      is_full 4 \<lparr>head = 3, tail = 0, storage = Some [Some (1::nat), Some 2, Some 3, None]\<rparr>)"
proof -
  let ?cs = "[TryPush (1::nat), TryPush 2, TryPush 3, IsFull, IsEmpty]"
  let ?b = "\<lparr>head = 3, tail = 0, storage = Some [Some (1::nat), Some 2, Some 3, None]\<rparr>"
  have sa: "static_asserts 4" by (simp add: static_asserts_def)
  have r: "run 4 ?cs (RingBuffer_new 4) =
      Inr ([Pushed 1 True, Pushed 2 True, Pushed 3 True, Reported True, Reported False], ?b)"
    by code_simp
  from empty_full_exclusive [OF sa, of ?cs]
  obtain evs b' where e: "run 4 ?cs (RingBuffer_new 4) = Inr (evs, b')"
    "\<not> (is_empty b' \<and> is_full 4 b')" by blast
  from e(1) r have "b' = ?b" by simp
  with e(2) sa r show ?thesis by simp
qed

text \<open>
  C6, as the code has it. After the move constructor or the move assignment from A into
  B, B is in the state A was in, so it holds the elements A held, in the same order. A is
  left with both cursors 0 and the null storage pointer. Like a freshly constructed
  buffer it reports empty and not full, each of the three consumer calls fails on it and
  leaves it as it is, and its destructor destroys no element. It owns no slots, and
  nothing is said here of a push on it.
\<close>

theorem move_transfers_elements:
  assumes "static_asserts C" and "invariant C A" and "invariant C B0"
  shows "(\<exists>B A'. RingBuffer_move A = (B, A') \<and> B = A \<and> contents C B = contents C A \<and>
            A' = \<lparr>head = 0, tail = 0, storage = None\<rparr>) \<and>
         (\<exists>B A'. move_assign C B0 A = Inr (B, A') \<and> B = A \<and> contents C B = contents C A \<and>
            A' = \<lparr>head = 0, tail = 0, storage = None\<rparr>) \<and>
         is_empty \<lparr>head = 0, tail = 0, storage = None :: 'a Slot list option\<rparr> \<and>
         is_empty (RingBuffer_new C :: 'a RingBuffer) \<and>
         \<not> is_full C \<lparr>head = 0, tail = 0, storage = None :: 'a Slot list option\<rparr> \<and>
         \<not> is_full C (RingBuffer_new C :: 'a RingBuffer) \<and>
         try_pop C \<lparr>head = 0, tail = 0, storage = None :: 'a Slot list option\<rparr> =
           Inr (None, \<lparr>head = 0, tail = 0, storage = None\<rparr>) \<and>
         try_pop C (RingBuffer_new C :: 'a RingBuffer) = Inr (None, RingBuffer_new C) \<and>
         try_pop_ip C out \<lparr>head = 0, tail = 0, storage = None\<rparr> =
           Inr (False, out, \<lparr>head = 0, tail = 0, storage = None\<rparr>) \<and>
         try_pop_ip C out (RingBuffer_new C) = Inr (False, out, RingBuffer_new C) \<and>
         try_consume C f s \<lparr>head = 0, tail = 0, storage = None :: 'a Slot list option\<rparr> =
           Inr (False, s, \<lparr>head = 0, tail = 0, storage = None\<rparr>) \<and>
         try_consume C f s (RingBuffer_new C :: 'a RingBuffer) = Inr (False, s, RingBuffer_new C) \<and>
         RingBuffer_dtor C \<lparr>head = 0, tail = 0, storage = None :: 'a Slot list option\<rparr> =
           Inr (0, \<lparr>head = 0, tail = 0, storage = None\<rparr>)"
proof -
  have same: "\<lparr>head = head A, tail = tail A, storage = storage A\<rparr> = A"
    by (cases A) simp
  have ctor: "\<exists>B A'. RingBuffer_move A = (B, A') \<and> B = A \<and> contents C B = contents C A \<and>
            A' = \<lparr>head = 0, tail = 0, storage = None\<rparr>"
    by (simp add: RingBuffer_move_def same)
  have over: "B1\<lparr>head := head A, tail := tail A, storage := storage A\<rparr> = A" for B1
    by (cases A, cases B1) simp
  from pop_all_drains [OF assms(1,3) refl]
  obtain B1 where "pop_all C B0 = Inr B1" by blast
  then have assign: "\<exists>B A'. move_assign C B0 A = Inr (B, A') \<and> B = A \<and>
      contents C B = contents C A \<and> A' = \<lparr>head = 0, tail = 0, storage = None\<rparr>"
    by (simp add: move_assign_def over)
  have nf: "\<not> is_full C (RingBuffer_new C :: 'a RingBuffer)"
    using not_full_at_zero [OF assms(1)] by (simp add: RingBuffer_new_def)
  from ctor assign nf not_full_at_zero [OF assms(1), of None] show ?thesis
    by (simp only: moved_from_reads fresh_reads simp_thms)
qed

theorem move_transfers_elements_witness:
  "static_asserts 4 \<and>
   invariant 4 \<lparr>head = 2, tail = 0, storage = Some [Some (1::nat), Some 2, None, None]\<rparr> \<and>
   invariant 4 \<lparr>head = 0, tail = 3, storage = Some [None, None, None, Some (9::nat)]\<rparr> \<and>
   move_assign 4 \<lparr>head = 0, tail = 3, storage = Some [None, None, None, Some (9::nat)]\<rparr>
       \<lparr>head = 2, tail = 0, storage = Some [Some (1::nat), Some 2, None, None]\<rparr> =
     Inr (\<lparr>head = 2, tail = 0, storage = Some [Some 1, Some 2, None, None]\<rparr>,
          \<lparr>head = 0, tail = 0, storage = None\<rparr>) \<and>
   try_pop 4 \<lparr>head = 0, tail = 0, storage = None :: nat Slot list option\<rparr> =
     Inr (None, \<lparr>head = 0, tail = 0, storage = None\<rparr>)"
proof -
  let ?A = "\<lparr>head = 2, tail = 0, storage = Some [Some (1::nat), Some 2, None, None]\<rparr>"
  let ?B0 = "\<lparr>head = 0, tail = 3, storage = Some [None, None, None, Some (9::nat)]\<rparr>"
  have sa: "static_asserts 4" by (simp add: static_asserts_def)
  have invA: "invariant 4 ?A"
    by (simp add: invariant_def slots_of_def offset_def occupancy_def all_below_upt upt_rec)
  have invB: "invariant 4 ?B0"
    by (simp add: invariant_def slots_of_def offset_def occupancy_def all_below_upt upt_rec)
  note inst = move_transfers_elements [OF sa invA invB]
  from inst [THEN conjunct2, THEN conjunct1]
  have "move_assign 4 ?B0 ?A = Inr (?A, \<lparr>head = 0, tail = 0, storage = None\<rparr>)" by auto
  moreover from inst [THEN conjunct2, THEN conjunct2, THEN conjunct2, THEN conjunct2,
      THEN conjunct2, THEN conjunct2, THEN conjunct1]
  have "try_pop 4 \<lparr>head = 0, tail = 0, storage = None :: nat Slot list option\<rparr> =
     Inr (None, \<lparr>head = 0, tail = 0, storage = None\<rparr>)" .
  ultimately show ?thesis using sa invA invB by simp
qed

text \<open>
  The moved-from buffer is not a fresh one, as C6 has it in the specification: the move
  takes the slot array along, so a push on the source constructs through the null
  pointer, where the same push on a freshly constructed buffer succeeds.
\<close>

theorem moved_from_push_counterexample:
  "try_push 4 (3::nat)
     (snd (RingBuffer_move \<lparr>head = 2, tail = 0, storage = Some [Some 1, Some 2, None, None]\<rparr>)) \<noteq>
   try_push 4 (3::nat) (RingBuffer_new 4) \<and>
   try_push 4 (3::nat)
     (snd (RingBuffer_move \<lparr>head = 2, tail = 0, storage = Some [Some 1, Some 2, None, None]\<rparr>)) =
     Inl NullStorage \<and>
   try_push 4 (3::nat) (RingBuffer_new 4) =
     Inr (True, \<lparr>head = 1, tail = 0, storage = Some [Some 3, None, None, None]\<rparr>)"
  by code_simp

text \<open>
  C7. Destroying a buffer that satisfies the class invariant and holds N unread elements
  runs the element destructor N times: the loop of the destructor makes N successful
  rounds, each with one destructor call, and then stops. Before the call exactly N slots
  hold a live object; after it none does, so every resident element has been destroyed,
  and none twice, since destroying a slot that holds no object is a fault and the call
  returns without one.
\<close>

theorem destructor_destroys_each_once:
  assumes "static_asserts C" and "invariant C b"
  shows "\<exists>b'. RingBuffer_dtor C b = Inr (length (contents C b), b') \<and>
           live_slots b = length (contents C b) \<and>
           storage b' = Some (replicate (unat C) None) \<and> live_slots b' = 0"
proof -
  from dtor_drains [OF assms refl]
  obtain b' where d: "RingBuffer_dtor C b = Inr (occupancy C b, b')"
    "storage b' = Some (replicate (unat C) None)" "live_slots b = occupancy C b" by blast
  from d(2) have "live_slots b' = 0" by (simp add: live_slots_def)
  with d show ?thesis by (simp add: length_contents)
qed

theorem destructor_destroys_each_once_witness:
  "static_asserts 4 \<and>
   invariant 4 \<lparr>head = 1, tail = 2, storage = Some [Some (40::nat), None, Some 20, Some 30]\<rparr> \<and>
   contents 4 \<lparr>head = 1, tail = 2, storage = Some [Some (40::nat), None, Some 20, Some 30]\<rparr> =
     [20, 30, 40] \<and>
   (\<exists>b'. RingBuffer_dtor 4
            \<lparr>head = 1, tail = 2, storage = Some [Some (40::nat), None, Some 20, Some 30]\<rparr> =
          Inr (3, b') \<and> storage b' = Some [None, None, None, None])"
proof -
  let ?b = "\<lparr>head = 1, tail = 2, storage = Some [Some (40::nat), None, Some 20, Some 30]\<rparr>"
  have sa: "static_asserts 4" by (simp add: static_asserts_def)
  have inv: "invariant 4 ?b"
    by (simp add: invariant_def slots_of_def offset_def occupancy_def all_below_upt upt_rec)
  have c: "contents 4 ?b = [20, 30, 40]"
    by (simp add: contents_def slots_of_def slot_index_def occupancy_def upt_rec)
  have n: "length (contents 4 ?b) = 3" by (simp add: c)
  have "replicate 4 (None :: nat option) = [None, None, None, None]"
    by (simp add: numeral_eq_Suc)
  then have r: "replicate (unat (4 :: size_t)) (None :: nat option) = [None, None, None, None]"
    by simp
  from destructor_destroys_each_once [OF sa inv]
  obtain b' where "RingBuffer_dtor 4 ?b = Inr (length (contents 4 ?b), b')"
    "storage b' = Some (replicate (unat (4 :: size_t)) None)" by blast
  then have "RingBuffer_dtor 4 ?b = Inr (3, b') \<and> storage b' = Some [None, None, None, None]"
    by (simp only: n r)
  with sa inv c show ?thesis by blast
qed

text \<open>
  C8. The three consumer calls agree in every state. Where \<^verbatim>\<open>try_pop\<close> finds the buffer
  empty, \<^verbatim>\<open>try_pop_ip\<close> and \<^verbatim>\<open>try_consume\<close> return \<^verbatim>\<open>false\<close>, and all three leave
  the same buffer behind; where it returns an element, the other two return \<^verbatim>\<open>true\<close>,
  the caller's variable holds that element, the callback has been applied to it, and all
  three leave the same buffer behind; where it has no defined result, neither have the
  other two. On a buffer that satisfies the class invariant the element delivered is the
  front of the queue.
\<close>

theorem consumers_equivalent:
  "(case try_pop C b of
      Inl e \<Rightarrow> try_pop_ip C out b = Inl e \<and> try_consume C f s b = Inl e
    | Inr (None, b') \<Rightarrow>
        try_pop_ip C out b = Inr (False, out, b') \<and> try_consume C f s b = Inr (False, s, b')
    | Inr (Some v, b') \<Rightarrow>
        try_pop_ip C out b = Inr (True, v, b') \<and> try_consume C f s b = Inr (True, f v s, b')) \<and>
   (static_asserts C \<and> invariant C b \<longrightarrow>
      (\<exists>r b'. try_pop C b = Inr (r, b') \<and>
         (case r of None \<Rightarrow> contents C b = [] \<and> b' = b
                  | Some v \<Rightarrow> contents C b = v # contents C b')))"
proof -
  have "\<exists>r b'. try_pop C b = Inr (r, b') \<and>
         (case r of None \<Rightarrow> contents C b = [] \<and> b' = b
                  | Some v \<Rightarrow> contents C b = v # contents C b')"
    if sa: "static_asserts C" and inv: "invariant C b"
  proof (cases "is_empty b")
    case True
    then have "occupancy C b = 0" by (simp add: is_empty_iff [OF sa inv])
    then have "contents C b = []" by (simp add: contents_def)
    with True show ?thesis by (simp add: try_pop_empty)
  next
    case False
    from try_pop_element [OF sa inv False]
    obtain v b' where "try_pop C b = Inr (Some v, b')" "contents C b = v # contents C b'"
      by blast
    then show ?thesis by simp
  qed
  then show ?thesis
    by (simp add: try_pop_ip_eq try_consume_eq split: sum.splits option.splits prod.splits)
qed

theorem consumers_equivalent_witness:
  "static_asserts 4 \<and>
   invariant 4 \<lparr>head = 1, tail = 3, storage = Some [Some (40::nat), None, None, Some 30]\<rparr> \<and>
   try_pop 4 \<lparr>head = 1, tail = 3, storage = Some [Some (40::nat), None, None, Some 30]\<rparr> =
     Inr (Some 30, \<lparr>head = 1, tail = 0, storage = Some [Some 40, None, None, None]\<rparr>) \<and>
   try_pop_ip 4 0 \<lparr>head = 1, tail = 3, storage = Some [Some (40::nat), None, None, Some 30]\<rparr> =
     Inr (True, 30, \<lparr>head = 1, tail = 0, storage = Some [Some 40, None, None, None]\<rparr>) \<and>
   try_consume 4 (\<lambda>v s. v # s) [] \<lparr>head = 1, tail = 3, storage = Some [Some (40::nat), None, None, Some 30]\<rparr> =
     Inr (True, [30], \<lparr>head = 1, tail = 0, storage = Some [Some 40, None, None, None]\<rparr>) \<and>
   contents 4 \<lparr>head = 1, tail = 3, storage = Some [Some (40::nat), None, None, Some 30]\<rparr> =
     30 # contents 4 \<lparr>head = 1, tail = 0, storage = Some [Some 40, None, None, None]\<rparr>"
proof -
  let ?b = "\<lparr>head = 1, tail = 3, storage = Some [Some (40::nat), None, None, Some 30]\<rparr>"
  have sa: "static_asserts 4" by (simp add: static_asserts_def)
  have inv: "invariant 4 ?b"
    by (simp add: invariant_def slots_of_def offset_def occupancy_def all_below_upt upt_rec)
  have pop: "try_pop 4 ?b =
      Inr (Some 30, \<lparr>head = 1, tail = 0, storage = Some [Some 40, None, None, None]\<rparr>)"
    by (simp add: try_pop_def get_ptr_def move_from_def destroy_at_def)
  from consumers_equivalent [where C = 4 and b = ?b and out = 0 and f = "\<lambda>v s. v # s" and s = "[]"]
    sa inv pop
  show ?thesis by simp
qed

text \<open>
  C9. Whatever a producer call returns, it leaves \<^verbatim>\<open>tail\<close> and every slot but the one
  at \<^verbatim>\<open>head\<close> as they were; whatever a consumer call returns, it leaves \<^verbatim>\<open>head\<close> and
  every slot but the one at \<^verbatim>\<open>tail\<close> as they were. On a buffer that satisfies the
  class invariant all five calls return, and the slot at \<^verbatim>\<open>head\<close> is none of the
  occupied slots from \<^verbatim>\<open>tail\<close> up to \<^verbatim>\<open>head\<close>, so a producer call leaves every
  occupied slot as it was.
\<close>

theorem frame_conditions:
  "(\<forall>ok b'. try_push C v b = Inr (ok, b') \<longrightarrow>
      tail b' = tail b \<and> length (slots_of b') = length (slots_of b) \<and>
      (\<forall>i. i \<noteq> unat (head b) \<longrightarrow> slots_of b' ! i = slots_of b ! i)) \<and>
   (\<forall>ok b'. emplace C T args b = Inr (ok, b') \<longrightarrow>
      tail b' = tail b \<and> length (slots_of b') = length (slots_of b) \<and>
      (\<forall>i. i \<noteq> unat (head b) \<longrightarrow> slots_of b' ! i = slots_of b ! i)) \<and>
   (\<forall>ok out' b'. try_pop_ip C out b = Inr (ok, out', b') \<longrightarrow>
      head b' = head b \<and> length (slots_of b') = length (slots_of b) \<and>
      (\<forall>i. i \<noteq> unat (tail b) \<longrightarrow> slots_of b' ! i = slots_of b ! i)) \<and>
   (\<forall>r b'. try_pop C b = Inr (r, b') \<longrightarrow>
      head b' = head b \<and> length (slots_of b') = length (slots_of b) \<and>
      (\<forall>i. i \<noteq> unat (tail b) \<longrightarrow> slots_of b' ! i = slots_of b ! i)) \<and>
   (\<forall>ok s' b'. try_consume C f s b = Inr (ok, s', b') \<longrightarrow>
      head b' = head b \<and> length (slots_of b') = length (slots_of b) \<and>
      (\<forall>i. i \<noteq> unat (tail b) \<longrightarrow> slots_of b' ! i = slots_of b ! i)) \<and>
   (static_asserts C \<and> invariant C b \<longrightarrow>
      (\<exists>ok b'. try_push C v b = Inr (ok, b') \<and>
         (\<forall>k<occupancy C b. slots_of b' ! slot_index C b k = slots_of b ! slot_index C b k)) \<and>
      (\<exists>ok b'. emplace C T args b = Inr (ok, b') \<and>
         (\<forall>k<occupancy C b. slots_of b' ! slot_index C b k = slots_of b ! slot_index C b k)) \<and>
      (\<exists>ok out' b'. try_pop_ip C out b = Inr (ok, out', b')) \<and>
      (\<exists>r b'. try_pop C b = Inr (r, b')) \<and>
      (\<exists>ok s' b'. try_consume C f s b = Inr (ok, s', b')))"
proof -
  have occupied: "\<exists>ok b'. try_push C x b = Inr (ok, b') \<and>
         (\<forall>k<occupancy C b. slots_of b' ! slot_index C b k = slots_of b ! slot_index C b k)"
    if sa: "static_asserts C" and inv: "invariant C b" for x
  proof -
    from try_push_returns [OF sa inv, of x]
    obtain ok b' where r: "try_push C x b = Inr (ok, b')" by blast
    from try_push_frame [OF r] occupied_not_head [OF sa inv]
    have "\<forall>k<occupancy C b. slots_of b' ! slot_index C b k = slots_of b ! slot_index C b k"
      by blast
    with r show ?thesis by blast
  qed
  show ?thesis
    using try_push_frame [of C v b] try_push_frame [of C "T args" b]
      try_pop_ip_frame [of C out b] try_pop_frame [of C b] try_consume_frame [of C f s b]
      occupied [of v] occupied [of "T args"]
      try_pop_ip_returns [of C b out] try_pop_returns [of C b] try_consume_returns [of C b f s]
    unfolding emplace_eq by blast
qed

theorem frame_conditions_witness:
  "static_asserts 4 \<and>
   invariant 4 \<lparr>head = 1, tail = 3, storage = Some [Some (40::nat), None, None, Some 30]\<rparr> \<and>
   (\<exists>ok b'. try_push 4 50 \<lparr>head = 1, tail = 3, storage = Some [Some (40::nat), None, None, Some 30]\<rparr> =
        Inr (ok, b') \<and> tail b' = 3 \<and>
      slots_of b' ! 3 = Some 30 \<and> slots_of b' ! 0 = Some 40)"
proof -
  let ?b = "\<lparr>head = 1, tail = 3, storage = Some [Some (40::nat), None, None, Some 30]\<rparr>"
  note inst = frame_conditions [where C = 4 and b = ?b and v = 50 and T = id and args = 50
      and out = 0 and f = "\<lambda>v s. s" and s = "()"]
  have sa: "static_asserts 4" by (simp add: static_asserts_def)
  have inv: "invariant 4 ?b"
    by (simp add: invariant_def slots_of_def offset_def occupancy_def all_below_upt upt_rec)
  have s: "slots_of ?b = [Some 40, None, None, Some 30]" by (simp add: slots_of_def)
  from inst [THEN conjunct2, THEN conjunct2, THEN conjunct2, THEN conjunct2, THEN conjunct2,
      THEN mp, OF conjI [OF sa inv], THEN conjunct1]
  obtain ok b1 where p1: "try_push 4 50 ?b = Inr (ok, b1)" by blast
  from inst [THEN conjunct1, THEN spec, THEN spec, THEN mp, OF p1]
  have "tail b1 = 3" "slots_of b1 ! 3 = Some 30" "slots_of b1 ! 0 = Some 40"
    by (simp_all add: s)
  with sa inv p1 show ?thesis by blast
qed

text \<open>
  C10. After any list of calls on a freshly constructed buffer both cursors are below
  \<^verbatim>\<open>Capacity\<close>, the array has \<^verbatim>\<open>Capacity\<close> slots, and \<^verbatim>\<open>get_ptr\<close> of either cursor,
  the only indices an operation computes, is a slot of the array. The run itself
  completes, so no call in it left the array either.
\<close>

theorem cursors_in_bounds:
  assumes "static_asserts C"
  shows "\<exists>evs b' slots. run C cs (RingBuffer_new C) = Inr (evs, b') \<and>
           head b' < C \<and> tail b' < C \<and>
           storage b' = Some slots \<and> length slots = unat C \<and>
           get_ptr b' (head b') = Inr (unat (head b')) \<and> unat (head b') < length slots \<and>
           get_ptr b' (tail b') = Inr (unat (tail b')) \<and> unat (tail b') < length slots"
proof -
  from run_new [OF assms, of cs]
  obtain evs b' where r: "run C cs (RingBuffer_new C) = Inr (evs, b')" and i: "invariant C b'"
    by blast
  from invariantD [OF assms i]
  obtain slots where s: "storage b' = Some slots" "length slots = unat C"
    "unat (head b') < unat C" "unat (tail b') < unat C" by blast
  then have "head b' < C" "tail b' < C" by (simp_all add: word_less_nat_alt)
  moreover have "get_ptr b' (head b') = Inr (unat (head b'))"
    "get_ptr b' (tail b') = Inr (unat (tail b'))"
    using s by (simp_all add: get_ptr_def)
  ultimately show ?thesis using r s by simp
qed

theorem cursors_in_bounds_witness:
  "static_asserts 4 \<and>
   run 4 [TryPush (1::nat), TryPush 2, TryPop, TryPush 3, TryPush 4, TryPop, TryPush 5]
     (RingBuffer_new 4) =
     Inr ([Pushed 1 True, Pushed 2 True, Popped (Some 1), Pushed 3 True, Pushed 4 True,
           Popped (Some 2), Pushed 5 True],
          \<lparr>head = 1, tail = 2, storage = Some [Some 5, None, Some 3, Some 4]\<rparr>) \<and>
   (\<exists>evs b'.
      run 4 [TryPush (1::nat), TryPush 2, TryPop, TryPush 3, TryPush 4, TryPop, TryPush 5]
        (RingBuffer_new 4) = Inr (evs, b') \<and>
      head b' < 4 \<and> tail b' < 4 \<and>
      get_ptr b' (head b') = Inr (unat (head b')) \<and>
      get_ptr b' (tail b') = Inr (unat (tail b')))"
proof -
  let ?cs = "[TryPush (1::nat), TryPush 2, TryPop, TryPush 3, TryPush 4, TryPop, TryPush 5]"
  have sa: "static_asserts 4" by (simp add: static_asserts_def)
  have r: "run 4 ?cs (RingBuffer_new 4) =
     Inr ([Pushed 1 True, Pushed 2 True, Popped (Some 1), Pushed 3 True, Pushed 4 True,
           Popped (Some 2), Pushed 5 True],
          \<lparr>head = 1, tail = 2, storage = Some [Some 5, None, Some 3, Some 4]\<rparr>)"
    by code_simp
  from cursors_in_bounds [OF sa, of ?cs]
  obtain evs b' where "run 4 ?cs (RingBuffer_new 4) = Inr (evs, b')"
    "head b' < 4" "tail b' < 4"
    "get_ptr b' (head b') = Inr (unat (head b'))"
    "get_ptr b' (tail b') = Inr (unat (tail b'))" by blast
  with sa r show ?thesis by blast
qed

end
